theory Spec2Isabelle
  imports Main "HOL-Library.Word" "HOL-Library.Sublist"
begin

section \<open>Errors, panics and message types\<close>

text \<open>
  The four error values of \<^verbatim>\<open>session.go\<close>, and \<open>ConnError\<close> for any error the websocket
  connection itself returns from \<^verbatim>\<open>WriteMessage\<close>.
\<close>

datatype error =
    ErrWriteToClosedSession
  | ErrMessageBufferFull
  | ErrSessionClosed
  | ErrSessionAlreadyClosed
  | ConnError string

text \<open>
  The run-time panics the code can raise: the two channel panics of Go, and the explicit
  \<^verbatim>\<open>panic\<close> of \<^verbatim>\<open>MustGet\<close> with its message.
\<close>

datatype panic =
    SendOnClosedChannel
  | CloseOfClosedChannel
  | PanicMsg string

type_synonym bytes = "8 word list"

text \<open>The message types of the websocket package (the opcodes of RFC 6455), Go \<^verbatim>\<open>int\<close>s.\<close>

definition TextMessage :: int where
  "TextMessage = 1"

definition BinaryMessage :: int where
  "BinaryMessage = 2"

definition CloseMessage :: int where
  "CloseMessage = 8"

definition PingMessage :: int where
  "PingMessage = 9"

text \<open>
  Modelled from the spec: the declaration of \<^verbatim>\<open>envelope\<close> is outside \<^verbatim>\<open>session.go\<close>. The spec
  gives an Envelope a message kind and a payload; \<^verbatim>\<open>session.go\<close> builds it with the fields
  \<^verbatim>\<open>t\<close> and \<^verbatim>\<open>msg\<close> and passes them to \<^verbatim>\<open>WriteMessage(messageType int, data []byte)\<close>.
\<close>

record envelope =
  t :: int
  msg :: bytes

section \<open>Channels\<close>

text \<open>
  A Go channel of capacity \<open>cap\<close>: the queued elements, oldest first, and whether the
  channel has been closed. The operations are those \<^verbatim>\<open>session.go\<close> uses:
  \<^item> a send inside \<^verbatim>\<open>select\<close> with a \<^verbatim>\<open>default\<close> branch: it panics on a closed channel,
    queues the element when there is room, and takes the default branch otherwise
    (an unbuffered hand-over to a parked receiver is not represented);
  \<^item> a receive \<^verbatim>\<open>v, ok := <-c\<close>: the oldest element with \<^verbatim>\<open>ok = true\<close>, or \<^verbatim>\<open>ok = false\<close>
    once the channel is closed and empty; on an empty open channel the receive is not
    ready (\<open>None\<close>);
  \<^item> \<^verbatim>\<open>close(c)\<close>: it panics on a closed channel.
\<close>

record 'a chan =
  buf :: "'a list"
  cap :: nat
  chan_closed :: bool

definition chan_send_nb :: "'a chan \<Rightarrow> 'a \<Rightarrow> panic + ('a chan) option" where
  "chan_send_nb c x =
     (if chan_closed c then Inl SendOnClosedChannel
      else if length (buf c) < cap c then Inr (Some (c\<lparr>buf := buf c @ [x]\<rparr>))
      else Inr None)"

definition chan_recv :: "'a chan \<Rightarrow> ('a chan \<times> 'a option) option" where
  "chan_recv c =
     (case buf c of
        x # xs \<Rightarrow> Some (c\<lparr>buf := xs\<rparr>, Some x)
      | [] \<Rightarrow> if chan_closed c then Some (c, None) else None)"

definition chan_close :: "'a chan \<Rightarrow> panic + 'a chan" where
  "chan_close c =
     (if chan_closed c then Inl CloseOfClosedChannel else Inr (c\<lparr>chan_closed := True\<rparr>))"

section \<open>The session\<close>

text \<open>
  What a session does to its collaborators, in the order it does it: the calls on the
  websocket connection \<^verbatim>\<open>s.conn\<close> (\<^verbatim>\<open>SetWriteDeadline\<close>, \<^verbatim>\<open>WriteMessage\<close> with the message
  type, the payload and the error the connection returned, \<^verbatim>\<open>Close\<close>) and the handlers
  of \<^verbatim>\<open>s.melody\<close> it invokes.
\<close>

datatype event =
    ErrorHandler error
  | MessageSentHandler bytes
  | MessageSentHandlerBinary bytes
  | SetWriteDeadline
  | WriteMessage int bytes "error option"
  | ConnClose

text \<open>
  The \<^verbatim>\<open>Session\<close> struct. \<open>Request\<close> is reduced to the values of the request's context, newest
  first; a value is an \<^verbatim>\<open>interface{}\<close>, \<open>None\<close> for \<^verbatim>\<open>nil\<close>. \<open>output\<close> is the channel of
  envelopes, \<open>open\<close> the flag. The connection and the \<^verbatim>\<open>Melody\<close> instance live outside
  \<^verbatim>\<open>session.go\<close>: \<open>trace\<close> records the calls made on them. Each function below is one
  call running alone, so the lock \<^verbatim>\<open>rwmutex\<close> has no state of its own here; the
  interleaving of two calls of \<^verbatim>\<open>close\<close> is modelled separately.
\<close>

record 'v session =
  Request :: "(string \<times> 'v option) list"
  "output" :: "envelope chan"
  "open" :: bool
  trace :: "event list"

definition emit :: "event \<Rightarrow> 'v session \<Rightarrow> 'v session" where
  "emit e s = s\<lparr>trace := trace s @ [e]\<rparr>"

definition closed :: "'v session \<Rightarrow> bool" where
  "closed s = (\<not> open s)"

definition writeMessage :: "'v session \<Rightarrow> envelope \<Rightarrow> panic + ('v session \<times> error option)" where
  "writeMessage s message =
     (if closed s then
        Inr (emit (ErrorHandler ErrWriteToClosedSession) s, Some ErrWriteToClosedSession)
      else
        (case chan_send_nb (output s) message of
           Inl p \<Rightarrow> Inl p
         | Inr (Some c) \<Rightarrow> Inr (s\<lparr>output := c\<rparr>, None)
         | Inr None \<Rightarrow>
             Inr (emit (ErrorHandler ErrMessageBufferFull) s, Some ErrMessageBufferFull)))"

text \<open>
  \<open>wr\<close> is what \<^verbatim>\<open>s.conn.WriteMessage\<close> returns when it is called (\<open>None\<close> for \<^verbatim>\<open>nil\<close>): the
  connection is outside the program.
\<close>

definition writeRaw :: "'v session \<Rightarrow> envelope \<Rightarrow> error option \<Rightarrow> 'v session \<times> error option" where
  "writeRaw s message wr =
     (if closed s then (s, Some ErrWriteToClosedSession)
      else (emit (WriteMessage (t message) (msg message) wr) (emit SetWriteDeadline s), wr))"

text \<open>
  The body of \<^verbatim>\<open>close\<close> between \<^verbatim>\<open>Lock\<close> and \<^verbatim>\<open>Unlock\<close>, and \<^verbatim>\<open>close\<close> itself: the check
  \<^verbatim>\<open>s.closed()\<close>, which takes and releases the read lock, then the locked body.
\<close>

definition close_locked :: "'v session \<Rightarrow> panic + 'v session" where
  "close_locked s =
     (let s1 = s\<lparr>open := False\<rparr>;
          s2 = emit ConnClose s1
      in case chan_close (output s2) of
           Inl p \<Rightarrow> Inl p
         | Inr c \<Rightarrow> Inr (s2\<lparr>output := c\<rparr>))"

definition close :: "'v session \<Rightarrow> panic + 'v session" where
  "close s = (if \<not> closed s then close_locked s else Inr s)"

definition ping :: "'v session \<Rightarrow> error option \<Rightarrow> 'v session" where
  "ping s wr = fst (writeRaw s \<lparr>t = PingMessage, msg = []\<rparr> wr)"

section \<open>The write pump\<close>

text \<open>
  One iteration of the loop of \<^verbatim>\<open>writePump\<close>. The \<^verbatim>\<open>select\<close> takes the case the
  environment makes ready: a receive from \<^verbatim>\<open>s.output\<close> or a tick. The result says whether
  the loop goes on (\<open>True\<close>) or breaks (\<open>False\<close>). A receive chosen while the channel is
  empty and open is not ready: the pump stays in the \<^verbatim>\<open>select\<close>, unchanged.
\<close>

datatype select = RecvOutput | TickerC

definition writePump_iter ::
  "'v session \<Rightarrow> select \<times> error option \<Rightarrow> bool \<times> 'v session" where
  "writePump_iter s ev =
     (case ev of
        (TickerC, wr) \<Rightarrow> (True, ping s wr)
      | (RecvOutput, wr) \<Rightarrow>
          (case chan_recv (output s) of
             None \<Rightarrow> (True, s)
           | Some (c, None) \<Rightarrow> (False, s)
           | Some (c, Some m) \<Rightarrow>
               (case writeRaw (s\<lparr>output := c\<rparr>) m wr of
                  (s1, Some err) \<Rightarrow> (False, emit (ErrorHandler err) s1)
                | (s1, None) \<Rightarrow>
                    if t m = CloseMessage then (False, s1)
                    else
                      (let s2 = (if t m = TextMessage
                                 then emit (MessageSentHandler (msg m)) s1 else s1);
                           s3 = (if t m = BinaryMessage
                                 then emit (MessageSentHandlerBinary (msg m)) s2 else s2)
                       in (True, s3)))))"

text \<open>
  The loop, driven by the events the environment supplies. When the events run out the
  loop has not ended: the pump is still \<open>Running\<close>.
\<close>

datatype pump_status = Running | Stopped

fun writePump :: "(select \<times> error option) list \<Rightarrow> 'v session \<Rightarrow> pump_status \<times> 'v session" where
  "writePump [] s = (Running, s)"
| "writePump (ev # evs) s =
     (case writePump_iter s ev of
        (True, s') \<Rightarrow> writePump evs s'
      | (False, s') \<Rightarrow> (Stopped, s'))"

section \<open>The public operations\<close>

definition Write :: "'v session \<Rightarrow> bytes \<Rightarrow> panic + ('v session \<times> int \<times> error option)" where
  "Write s m =
     (if closed s then Inr (s, 0, Some ErrSessionClosed)
      else
        (case writeMessage s \<lparr>t = TextMessage, msg = m\<rparr> of
           Inl p \<Rightarrow> Inl p
         | Inr (s', err) \<Rightarrow> Inr (s', (if err = None then int (length m) else 0), err)))"

definition WriteBinary :: "'v session \<Rightarrow> bytes \<Rightarrow> panic + ('v session \<times> error option)" where
  "WriteBinary s m =
     (if closed s then Inr (s, Some ErrSessionClosed)
      else writeMessage s \<lparr>t = BinaryMessage, msg = m\<rparr>)"

definition Close :: "'v session \<Rightarrow> panic + ('v session \<times> error option)" where
  "Close s =
     (if closed s then Inr (s, Some ErrSessionAlreadyClosed)
      else writeMessage s \<lparr>t = CloseMessage, msg = []\<rparr>)"

definition CloseWithMsg :: "'v session \<Rightarrow> bytes \<Rightarrow> panic + ('v session \<times> error option)" where
  "CloseWithMsg s m =
     (if closed s then Inr (s, Some ErrSessionAlreadyClosed)
      else writeMessage s \<lparr>t = CloseMessage, msg = m\<rparr>)"

definition IsClosed :: "'v session \<Rightarrow> bool" where
  "IsClosed s = closed s"

subsection \<open>Values of the request's context\<close>

text \<open>
  \<^verbatim>\<open>Context().Value(key)\<close>: the value of the newest entry for the key, \<^verbatim>\<open>nil\<close> when there
  is none.
\<close>

definition ctx_Value :: "(string \<times> 'v option) list \<Rightarrow> string \<Rightarrow> 'v option" where
  "ctx_Value ctx key = (case map_of ctx key of None \<Rightarrow> None | Some v \<Rightarrow> v)"

text \<open>
  Modelled from the spec: \<^verbatim>\<open>newRequestWithContextKey\<close> is declared outside \<^verbatim>\<open>session.go\<close>.
  The spec has \<^verbatim>\<open>SetValue\<close> attach the value to the request-scoped context, an immutable
  context with a derivation chain: the new request's context is derived from the old
  one with the key bound to the value.
\<close>

definition newRequestWithContextKey ::
  "(string \<times> 'v option) list \<Rightarrow> string \<Rightarrow> 'v option \<Rightarrow> (string \<times> 'v option) list" where
  "newRequestWithContextKey r key val = (key, val) # r"

definition Set :: "'v session \<Rightarrow> string \<Rightarrow> 'v option \<Rightarrow> 'v session" where
  "Set s key val = s\<lparr>Request := newRequestWithContextKey (Request s) key val\<rparr>"

definition Get :: "'v session \<Rightarrow> string \<Rightarrow> 'v option \<times> bool" where
  "Get s key = (let val = ctx_Value (Request s) key in (val, val \<noteq> None))"

definition MustGet :: "'v session \<Rightarrow> string \<Rightarrow> panic + 'v option" where
  "MustGet s key =
     (case Get s key of
        (val, ex) \<Rightarrow>
          if ex then Inr val
          else Inl (PanicMsg (''Key '' @ [CHR 0x22] @ key @ [CHR 0x22] @ '' does not exist'')))"

section \<open>Session creation\<close>

text \<open>
  Modelled from the spec: sessions are created outside \<^verbatim>\<open>session.go\<close>. The spec creates a
  session around a live transport, open, with an empty mailbox whose capacity is fixed
  at creation; nothing has been done to the connection or the handlers yet.
\<close>

definition newSession :: "(string \<times> 'v option) list \<Rightarrow> nat \<Rightarrow> 'v session" where
  "newSession r n =
     \<lparr>Request = r, output = \<lparr>buf = [], cap = n, chan_closed = False\<rparr>, open = True, trace = []\<rparr>"

section \<open>Reading a trace\<close>

text \<open>The errors passed to the error handler, in order.\<close>

fun error_reports :: "event list \<Rightarrow> error list" where
  "error_reports [] = []"
| "error_reports (ErrorHandler e # es) = e # error_reports es"
| "error_reports (_ # es) = error_reports es"

text \<open>The envelopes the connection has written without an error, in order.\<close>

fun conn_writes :: "event list \<Rightarrow> envelope list" where
  "conn_writes [] = []"
| "conn_writes (WriteMessage k m None # es) = \<lparr>t = k, msg = m\<rparr> # conn_writes es"
| "conn_writes (_ # es) = conn_writes es"

text \<open>The invocations of the two message-sent handlers, in order.\<close>

fun sent_calls :: "event list \<Rightarrow> event list" where
  "sent_calls [] = []"
| "sent_calls (MessageSentHandler m # es) = MessageSentHandler m # sent_calls es"
| "sent_calls (MessageSentHandlerBinary m # es) = MessageSentHandlerBinary m # sent_calls es"
| "sent_calls (_ # es) = sent_calls es"

text \<open>
  The handler invocation a written envelope calls for: the plain handler for a text
  message, the binary one for a binary message, none for any other type.
\<close>

definition sent_for :: "envelope \<Rightarrow> event list" where
  "sent_for e =
     (if t e = TextMessage then [MessageSentHandler (msg e)]
      else if t e = BinaryMessage then [MessageSentHandlerBinary (msg e)]
      else [])"

definition is_user :: "envelope \<Rightarrow> bool" where
  "is_user e = (t e = TextMessage \<or> t e = BinaryMessage)"

definition not_ping :: "envelope \<Rightarrow> bool" where
  "not_ping e = (t e \<noteq> PingMessage)"

section \<open>Two calls of close, interleaved\<close>

text \<open>
  \<^verbatim>\<open>close\<close> takes the read lock for its check (inside \<^verbatim>\<open>s.closed()\<close>), releases it, and
  only then takes the write lock for its body. A call is therefore two atomic steps:
  the check, at \<open>AtCheck\<close>, and the locked body, at \<open>AtLock\<close>. \<open>close_calls\<close> runs several
  calls on one session; the schedule names the call that takes the next step.
\<close>

datatype close_pc = AtCheck | AtLock | Returned

definition close_step :: "close_pc \<Rightarrow> 'v session \<Rightarrow> panic + (close_pc \<times> 'v session)" where
  "close_step pc s =
     (case pc of
        AtCheck \<Rightarrow> Inr (if \<not> closed s then AtLock else Returned, s)
      | AtLock \<Rightarrow> (case close_locked s of Inl p \<Rightarrow> Inl p | Inr s' \<Rightarrow> Inr (Returned, s'))
      | Returned \<Rightarrow> Inr (Returned, s))"

fun close_calls ::
  "nat list \<Rightarrow> close_pc list \<Rightarrow> 'v session \<Rightarrow> panic + (close_pc list \<times> 'v session)" where
  "close_calls [] pcs s = Inr (pcs, s)"
| "close_calls (i # sched) pcs s =
     (if i < length pcs then
        (case close_step (pcs ! i) s of
           Inl p \<Rightarrow> Inl p
         | Inr (pc, s') \<Rightarrow> close_calls sched (pcs[i := pc]) s')
      else close_calls sched pcs s)"

section \<open>A session with its producers and its pump\<close>

text \<open>
  The calls a session receives while its write pump runs: the four public operations,
  the internal \<^verbatim>\<open>close\<close>, and the events of the pump's \<^verbatim>\<open>select\<close>. Each is one step.
  \<open>accepted\<close> collects the envelopes whose enqueue returned \<^verbatim>\<open>nil\<close>, in the order of the
  calls.
\<close>

datatype action =
    CallWrite bytes
  | CallWriteBinary bytes
  | CallClose
  | CallCloseWithMsg bytes
  | CallInternalClose
  | PumpEvent select "error option"

record 'v system =
  sess :: "'v session"
  pump :: pump_status
  accepted :: "envelope list"

definition enqueued ::
  "'v system \<Rightarrow> envelope \<Rightarrow> panic + ('v session \<times> error option) \<Rightarrow> panic + 'v system" where
  "enqueued y e r =
     (case r of
        Inl p \<Rightarrow> Inl p
      | Inr (s', err) \<Rightarrow>
          Inr (y\<lparr>sess := s', accepted := accepted y @ (if err = None then [e] else [])\<rparr>))"

definition exec :: "'v system \<Rightarrow> action \<Rightarrow> panic + 'v system" where
  "exec y a =
     (case a of
        CallWrite m \<Rightarrow>
          enqueued y \<lparr>t = TextMessage, msg = m\<rparr>
            (case Write (sess y) m of Inl p \<Rightarrow> Inl p | Inr (s', n, err) \<Rightarrow> Inr (s', err))
      | CallWriteBinary m \<Rightarrow>
          enqueued y \<lparr>t = BinaryMessage, msg = m\<rparr> (WriteBinary (sess y) m)
      | CallClose \<Rightarrow>
          enqueued y \<lparr>t = CloseMessage, msg = []\<rparr> (Close (sess y))
      | CallCloseWithMsg m \<Rightarrow>
          enqueued y \<lparr>t = CloseMessage, msg = m\<rparr> (CloseWithMsg (sess y) m)
      | CallInternalClose \<Rightarrow>
          (case close (sess y) of Inl p \<Rightarrow> Inl p | Inr s' \<Rightarrow> Inr (y\<lparr>sess := s'\<rparr>))
      | PumpEvent sel wr \<Rightarrow>
          (case pump y of
             Stopped \<Rightarrow> Inr y
           | Running \<Rightarrow>
               (case writePump_iter (sess y) (sel, wr) of
                  (go, s') \<Rightarrow> Inr (y\<lparr>sess := s', pump := (if go then Running else Stopped)\<rparr>))))"

fun run :: "action list \<Rightarrow> 'v system \<Rightarrow> panic + 'v system" where
  "run [] y = Inr y"
| "run (a # as) y = (case exec y a of Inl p \<Rightarrow> Inl p | Inr y' \<Rightarrow> run as y')"

definition start :: "'v session \<Rightarrow> 'v system" where
  "start s = \<lparr>sess = s, pump = Running, accepted = []\<rparr>"

section \<open>Auxiliary notions for the proofs\<close>

text \<open>
  A trace in which nothing follows a successful write of a close message, and a trace
  without such a write.
\<close>

fun ends_at_close :: "event list \<Rightarrow> bool" where
  "ends_at_close [] = True"
| "ends_at_close (WriteMessage k m None # es) =
     (if k = CloseMessage then es = [] else ends_at_close es)"
| "ends_at_close (_ # es) = ends_at_close es"

fun no_close_write :: "event list \<Rightarrow> bool" where
  "no_close_write [] = True"
| "no_close_write (WriteMessage k m None # es) = (k \<noteq> CloseMessage \<and> no_close_write es)"
| "no_close_write (_ # es) = no_close_write es"

text \<open>
  The invariant of a session with its pump: the channel is closed exactly when the flag
  is down, no accepted envelope is a ping, the envelopes written from the mailbox are an
  initial part of the accepted ones, and while the pump runs the mailbox holds the rest.
\<close>

definition sys_inv :: "'v system \<Rightarrow> bool" where
  "sys_inv y =
     (chan_closed (output (sess y)) = (\<not> open (sess y)) \<and>
      list_all not_ping (accepted y) \<and>
      prefix (filter not_ping (conn_writes (trace (sess y)))) (accepted y) \<and>
      (pump y = Running \<longrightarrow>
         filter not_ping (conn_writes (trace (sess y))) @ buf (output (sess y)) = accepted y))"

section \<open>Basic facts\<close>

lemmas message_types = TextMessage_def BinaryMessage_def CloseMessage_def PingMessage_def

lemmas api_defs = Write_def WriteBinary_def Close_def CloseWithMsg_def writeMessage_def
  closed_def chan_send_nb_def emit_def

lemmas eval_defs = api_defs chan_recv_def chan_close_def newSession_def writeRaw_def
  ping_def writePump_iter_def close_def close_locked_def close_step_def start_def exec_def
  enqueued_def message_types is_user_def not_ping_def sent_for_def

lemma conn_writes_append: "conn_writes (a @ b) = conn_writes a @ conn_writes b"
  by (induction a rule: conn_writes.induct) simp_all

lemma sent_calls_append: "sent_calls (a @ b) = sent_calls a @ sent_calls b"
  by (induction a rule: sent_calls.induct) simp_all

section \<open>The close transition\<close>

text \<open>
  One call of \<^verbatim>\<open>close\<close> running alone is the two steps of \<open>close_calls\<close> in a row. Run one
  after the other, calls of \<^verbatim>\<open>close\<close> perform the transition once: the first clears the
  flag, closes the connection and closes the channel, the second finds the session
  closed and changes nothing.
\<close>

lemma close_calls_alone:
  "close_calls [0, 0] [AtCheck] s =
     (case close s of Inl p \<Rightarrow> Inl p | Inr s' \<Rightarrow> Inr ([Returned], s'))"
  by (simp add: close_step_def close_def split: sum.splits)

lemma close_twice:
  "open s \<Longrightarrow> \<not> chan_closed (output s) \<Longrightarrow>
   \<exists>s'. close s = Inr s' \<and> close s' = Inr s' \<and> \<not> open s' \<and> chan_closed (output s') \<and>
     trace s' = trace s @ [ConnClose]"
  by (simp add: close_def close_locked_def chan_close_def closed_def emit_def)

text \<open>
  C1. The close transition is meant to run at most once per session, also when a second
  caller invokes \<^verbatim>\<open>close\<close> at the same time. The check of \<^verbatim>\<open>close\<close> and its locked body
  are two separate critical sections, so two calls can both pass the check before
  either takes the write lock. On a fresh session with the schedule: first call checks,
  second call checks, first call runs its body, the second call stands past its check
  (at \<open>AtLock\<close>) although the session is closed; its body then clears the flag and closes
  the connection a second time, and closing the closed channel panics.
\<close>

theorem concurrent_close_runs_twice:
  "close_calls [0, 1, 0] [AtCheck, AtCheck] (newSession [] 2 :: nat session) =
     Inr ([Returned, AtLock],
          \<lparr>Request = [], output = \<lparr>buf = [], cap = 2, chan_closed = True\<rparr>,
           open = False, trace = [ConnClose]\<rparr>) \<and>
   close_calls [0, 1, 0, 1] [AtCheck, AtCheck] (newSession [] 2 :: nat session) =
     Inl CloseOfClosedChannel"
  by (simp add: close_step_def close_locked_def chan_close_def closed_def emit_def newSession_def)

section \<open>Failed enqueues and the error handler\<close>




section \<open>Order of the writes\<close>

text \<open>
  The pump of the system is the loop \<^verbatim>\<open>writePump\<close>: pump events alone, from a running pump,
  leave the session and the status that \<open>writePump\<close> computes.
\<close>

lemma run_pump_stopped:
  "pump y = Stopped \<Longrightarrow> run (map (\<lambda>(sel, wr). PumpEvent sel wr) evs) y = Inr y"
  by (induction evs) (auto simp add: exec_def)

lemma run_pump_events:
  "run (map (\<lambda>(sel, wr). PumpEvent sel wr) evs) \<lparr>sess = s, pump = Running, accepted = a\<rparr> =
     Inr \<lparr>sess = snd (writePump evs s), pump = fst (writePump evs s), accepted = a\<rparr>"
proof (induction evs arbitrary: s)
  case Nil
  show ?case by simp
next
  case (Cons ev evs)
  obtain sel wr where ev: "ev = (sel, wr)" by (cases ev)
  obtain go s' where it: "writePump_iter s (sel, wr) = (go, s')"
    by (cases "writePump_iter s (sel, wr)")
  show ?case
  proof (cases go)
    case True
    with ev it Cons.IH [of s'] show ?thesis by (simp add: exec_def)
  next
    case False
    with ev it run_pump_stopped [of "\<lparr>sess = s', pump = Stopped, accepted = a\<rparr>" evs]
    show ?thesis by (simp add: exec_def)
  qed
qed

lemma enqueue_inv:
  assumes "sys_inv y" and "not_ping e"
  shows "\<exists>y'. enqueued y e (writeMessage (sess y) e) = Inr y' \<and> sys_inv y'"
  using assms
  by (auto simp add: sys_inv_def enqueued_def writeMessage_def closed_def chan_send_nb_def
      emit_def conn_writes_append)

lemma guarded_enqueue_inv:
  assumes "sys_inv y" and "not_ping e"
  shows "\<exists>y'. enqueued y e (if closed (sess y) then Inr (sess y, Some err)
                             else writeMessage (sess y) e) = Inr y' \<and> sys_inv y'"
proof (cases "closed (sess y)")
  case True
  with assms show ?thesis by (simp add: enqueued_def sys_inv_def)
next
  case False
  with enqueue_inv [OF assms] show ?thesis by simp
qed

lemma Write_as_enqueue:
  "(case Write s m of Inl p \<Rightarrow> Inl p | Inr (s', n, err) \<Rightarrow> Inr (s', err)) =
   (if closed s then Inr (s, Some ErrSessionClosed)
    else writeMessage s \<lparr>t = TextMessage, msg = m\<rparr>)"
  by (simp add: Write_def split: sum.splits)

lemma close_inv:
  assumes "sys_inv y"
  shows "\<exists>s'. close (sess y) = Inr s' \<and> sys_inv (y\<lparr>sess := s'\<rparr>)"
  using assms
  by (auto simp add: sys_inv_def close_def close_locked_def chan_close_def closed_def emit_def
      conn_writes_append)

lemma writeRaw_effect:
  assumes "writeRaw s m wr = (s1, r)"
  shows "output s1 = output s \<and> open s1 = open s \<and>
         conn_writes (trace s1) = conn_writes (trace s) @ (if r = None then [m] else [])"
  using assms
  by (cases wr) (auto simp add: writeRaw_def emit_def conn_writes_append split: if_splits)

lemma conn_writes_emit_handler [simp]:
  "conn_writes (trace (emit (ErrorHandler e) s)) = conn_writes (trace s)"
  "conn_writes (trace (emit (MessageSentHandler x) s)) = conn_writes (trace s)"
  "conn_writes (trace (emit (MessageSentHandlerBinary x) s)) = conn_writes (trace s)"
  by (simp_all add: emit_def conn_writes_append)

lemma emit_fields [simp]:
  "output (emit e s) = output s" "open (emit e s) = open s"
  by (simp_all add: emit_def)

lemma recv_iter:
  assumes "buf (output s) = m # ms" and "writeRaw (s\<lparr>output := (output s)\<lparr>buf := ms\<rparr>\<rparr>) m wr = (s1, r)"
    and "writePump_iter s (RecvOutput, wr) = (go, s')"
  shows "output s' = (output s)\<lparr>buf := ms\<rparr> \<and> open s' = open s \<and>
         conn_writes (trace s') = conn_writes (trace s) @ (if r = None then [m] else [])"
proof -
  from writeRaw_effect [OF assms(2)]
  have e: "output s1 = (output s)\<lparr>buf := ms\<rparr>" "open s1 = open s"
    "conn_writes (trace s1) = conn_writes (trace s) @ (if r = None then [m] else [])"
    by simp_all
  from assms have "s' = (case r of
       Some err \<Rightarrow> emit (ErrorHandler err) s1
     | None \<Rightarrow> if t m = CloseMessage then s1
         else (let s2 = (if t m = TextMessage then emit (MessageSentHandler (msg m)) s1 else s1)
               in if t m = BinaryMessage then emit (MessageSentHandlerBinary (msg m)) s2 else s2))"
    by (auto simp add: writePump_iter_def chan_recv_def Let_def split: option.splits if_splits)
  with e show ?thesis
    by (cases r) (simp_all add: Let_def)
qed

lemma pump_inv:
  assumes "sys_inv y" and "pump y = Running" and "writePump_iter (sess y) (sel, wr) = (go, s')"
  shows "sys_inv (y\<lparr>sess := s', pump := (if go then Running else Stopped)\<rparr>)"
proof (cases sel)
  case TickerC
  with assms show ?thesis
    by (cases wr)
      (auto simp add: sys_inv_def writePump_iter_def ping_def writeRaw_def emit_def
        conn_writes_append not_ping_def closed_def)
next
  case RecvOutput
  show ?thesis
  proof (cases "buf (output (sess y))")
    case Nil
    with RecvOutput assms show ?thesis
      by (auto simp add: sys_inv_def writePump_iter_def chan_recv_def split: if_splits)
  next
    case (Cons m ms)
    from assms(1,2)
    have acc: "filter not_ping (conn_writes (trace (sess y))) @ buf (output (sess y)) = accepted y"
      and all: "list_all not_ping (accepted y)"
      and cl: "chan_closed (output (sess y)) = (\<not> open (sess y))"
      by (simp_all add: sys_inv_def)
    from acc Cons have "m \<in> set (accepted y)"
      by (metis in_set_conv_decomp)
    with all have np: "not_ping m"
      by (simp add: list_all_iff)
    obtain s1 r where wr: "writeRaw ((sess y)\<lparr>output := (output (sess y))\<lparr>buf := ms\<rparr>\<rparr>) m wr = (s1, r)"
      by (cases "writeRaw ((sess y)\<lparr>output := (output (sess y))\<lparr>buf := ms\<rparr>\<rparr>) m wr")
    from recv_iter [OF Cons wr] assms(3) RecvOutput
    have s': "output s' = (output (sess y))\<lparr>buf := ms\<rparr>" "open s' = open (sess y)"
      "conn_writes (trace s') = conn_writes (trace (sess y)) @ (if r = None then [m] else [])"
      by simp_all
    from acc Cons
    have split: "accepted y = filter not_ping (conn_writes (trace (sess y))) @ m # ms"
      by simp
    show ?thesis
    proof (cases r)
      case None
      with s' np cl all split show ?thesis
        by (simp add: sys_inv_def)
    next
      case (Some err)
      have "go = False"
        using assms(3) RecvOutput Cons wr Some
        by (simp add: writePump_iter_def chan_recv_def)
      with Some s' np cl all split show ?thesis
        by (simp add: sys_inv_def)
    qed
  qed
qed

lemma exec_inv:
  assumes "sys_inv y"
  shows "\<exists>y'. exec y a = Inr y' \<and> sys_inv y'"
proof (cases a)
  case (CallWrite m)
  have "not_ping \<lparr>t = TextMessage, msg = m\<rparr>" by (simp add: not_ping_def message_types)
  from guarded_enqueue_inv [OF assms this] CallWrite show ?thesis
    by (simp add: exec_def Write_as_enqueue)
next
  case (CallWriteBinary m)
  have "not_ping \<lparr>t = BinaryMessage, msg = m\<rparr>" by (simp add: not_ping_def message_types)
  from guarded_enqueue_inv [OF assms this] CallWriteBinary show ?thesis
    by (simp add: exec_def WriteBinary_def)
next
  case CallClose
  have "not_ping \<lparr>t = CloseMessage, msg = []\<rparr>" by (simp add: not_ping_def message_types)
  from guarded_enqueue_inv [OF assms this] CallClose show ?thesis
    by (simp add: exec_def Close_def)
next
  case (CallCloseWithMsg m)
  have "not_ping \<lparr>t = CloseMessage, msg = m\<rparr>" by (simp add: not_ping_def message_types)
  from guarded_enqueue_inv [OF assms this] CallCloseWithMsg show ?thesis
    by (simp add: exec_def CloseWithMsg_def)
next
  case CallInternalClose
  with close_inv [OF assms] show ?thesis
    by (auto simp add: exec_def)
next
  case (PumpEvent sel wr)
  show ?thesis
  proof (cases "pump y")
    case Stopped
    with PumpEvent assms show ?thesis by (simp add: exec_def)
  next
    case Running
    obtain go s' where it: "writePump_iter (sess y) (sel, wr) = (go, s')"
      by (cases "writePump_iter (sess y) (sel, wr)")
    from pump_inv [OF assms Running it] PumpEvent Running it show ?thesis
      by (simp add: exec_def)
  qed
qed

lemma run_inv:
  "sys_inv y \<Longrightarrow> \<exists>y'. run acts y = Inr y' \<and> sys_inv y'"
proof (induction acts arbitrary: y)
  case Nil
  then show ?case by simp
next
  case (Cons a acts)
  from exec_inv [OF Cons.prems, of a] obtain y1 where "exec y a = Inr y1" "sys_inv y1"
    by blast
  with Cons.IH [of y1] show ?case by simp
qed

lemma start_inv: "sys_inv (start (newSession r n))"
  by (simp add: sys_inv_def start_def newSession_def)

lemma is_user_not_ping: "is_user e \<Longrightarrow> not_ping e"
  by (auto simp add: is_user_def not_ping_def message_types)

lemma filter_user_not_ping: "filter is_user (filter not_ping xs) = filter is_user xs"
  by (induction xs) (auto dest: is_user_not_ping)

lemma prefix_filter_mono: "prefix xs ys \<Longrightarrow> prefix (filter P xs) (filter P ys)"
  by (auto simp add: prefix_def)

text \<open>
  C3. Start from a fresh session with its pump running and let any sequence of calls
  and pump events happen. The run never panics. The text and binary envelopes the
  connection has written are, in order, an initial part of the text and binary
  envelopes that were accepted, in the order of their calls; pings, which the pump writes
  on ticks, sit in the trace between them and change nothing of this. While the pump is
  running, the accepted envelopes not yet written are exactly those waiting in the
  mailbox, in order.
\<close>

theorem writes_follow_enqueue_order:
  "\<exists>y. run acts (start (newSession r n)) = Inr y \<and>
       prefix (filter is_user (conn_writes (trace (sess y)))) (filter is_user (accepted y)) \<and>
       (pump y = Running \<longrightarrow>
          filter is_user (conn_writes (trace (sess y))) @ filter is_user (buf (output (sess y))) =
          filter is_user (accepted y))"
proof -
  from run_inv [OF start_inv, of acts r n] obtain y
    where y: "run acts (start (newSession r n)) = Inr y" and inv: "sys_inv y"
    by blast
  from inv have "prefix (filter not_ping (conn_writes (trace (sess y)))) (accepted y)"
    by (simp add: sys_inv_def)
  from prefix_filter_mono [OF this, of is_user]
  have p: "prefix (filter is_user (conn_writes (trace (sess y)))) (filter is_user (accepted y))"
    by (simp only: filter_user_not_ping)
  have "filter is_user (conn_writes (trace (sess y))) @ filter is_user (buf (output (sess y))) =
        filter is_user (accepted y)" if "pump y = Running"
  proof -
    from inv that
    have "filter not_ping (conn_writes (trace (sess y))) @ buf (output (sess y)) = accepted y"
      by (simp add: sys_inv_def)
    then have "filter is_user (filter not_ping (conn_writes (trace (sess y))) @ buf (output (sess y))) =
               filter is_user (accepted y)"
      by simp
    then show ?thesis by (simp only: filter_append filter_user_not_ping)
  qed
  with y p show ?thesis by blast
qed

theorem writes_follow_enqueue_order_witness:
  "\<exists>y. run [CallWrite [104], PumpEvent TickerC None, CallWriteBinary [105],
            PumpEvent RecvOutput None, CallWrite [106], PumpEvent RecvOutput None]
         (start (newSession [] 2 :: nat session)) = Inr y \<and>
       pump y = Running \<and>
       conn_writes (trace (sess y)) =
         [\<lparr>t = PingMessage, msg = []\<rparr>, \<lparr>t = TextMessage, msg = [104]\<rparr>,
          \<lparr>t = BinaryMessage, msg = [105]\<rparr>] \<and>
       filter is_user (conn_writes (trace (sess y))) @ filter is_user (buf (output (sess y))) =
         filter is_user (accepted y)"
proof -
  let ?acts = "[CallWrite [104], PumpEvent TickerC None, CallWriteBinary [105],
            PumpEvent RecvOutput None, CallWrite [106], PumpEvent RecvOutput None]"
  let ?y = "\<lparr>sess = \<lparr>Request = [],
                      output = \<lparr>buf = [\<lparr>t = TextMessage, msg = [106]\<rparr>], cap = 2, chan_closed = False\<rparr>,
                      open = True,
                      trace = [SetWriteDeadline, WriteMessage PingMessage [] None,
                               SetWriteDeadline, WriteMessage TextMessage [104] None,
                               MessageSentHandler [104],
                               SetWriteDeadline, WriteMessage BinaryMessage [105] None,
                               MessageSentHandlerBinary [105]]\<rparr>,
             pump = Running,
             accepted = [\<lparr>t = TextMessage, msg = [104]\<rparr>, \<lparr>t = BinaryMessage, msg = [105]\<rparr>,
                         \<lparr>t = TextMessage, msg = [106]\<rparr>]\<rparr> :: nat system"
  have r: "run ?acts (start (newSession [] 2 :: nat session)) = Inr ?y"
    by (simp add: eval_defs)
  from writes_follow_enqueue_order [of ?acts "[]" 2] obtain y
    where y: "run ?acts (start (newSession [] 2 :: nat session)) = Inr y"
      and rest: "pump y = Running \<longrightarrow>
          filter is_user (conn_writes (trace (sess y))) @ filter is_user (buf (output (sess y))) =
          filter is_user (accepted y)"
    by blast
  from y [unfolded r] have eq: "y = ?y"
    by (simp only: sum.inject)
  have "pump ?y = Running" by simp
  moreover from rest [unfolded eq] this
  have "filter is_user (conn_writes (trace (sess ?y))) @ filter is_user (buf (output (sess ?y))) =
          filter is_user (accepted ?y)"
    by (rule mp)
  moreover have "conn_writes (trace (sess ?y)) =
         [\<lparr>t = PingMessage, msg = []\<rparr>, \<lparr>t = TextMessage, msg = [104]\<rparr>,
          \<lparr>t = BinaryMessage, msg = [105]\<rparr>]"
    by simp
  ultimately show ?thesis using r by blast
qed

section \<open>Closed sessions\<close>

text \<open>
  C4. On a session that has been closed, \<^verbatim>\<open>Write\<close> and \<^verbatim>\<open>WriteBinary\<close> return
  \<^verbatim>\<open>ErrSessionClosed\<close> (with zero bytes accepted), \<^verbatim>\<open>Close\<close> and \<^verbatim>\<open>CloseWithMsg\<close> return
  \<^verbatim>\<open>ErrSessionAlreadyClosed\<close>. Each call returns (it neither panics nor waits) and leaves
  the whole session, its channel and its trace included, as it was.
\<close>

theorem closed_session_calls_fail:
  assumes "closed s"
  shows "Write s m = Inr (s, 0, Some ErrSessionClosed) \<and>
         WriteBinary s m = Inr (s, Some ErrSessionClosed) \<and>
         Close s = Inr (s, Some ErrSessionAlreadyClosed) \<and>
         CloseWithMsg s m = Inr (s, Some ErrSessionAlreadyClosed)"
  using assms by (simp add: Write_def WriteBinary_def Close_def CloseWithMsg_def)

theorem closed_session_calls_fail_witness:
  "closed (\<lparr>Request = [], output = \<lparr>buf = [], cap = 2, chan_closed = True\<rparr>,
            open = False, trace = [ConnClose]\<rparr> :: nat session) \<and>
   WriteBinary (\<lparr>Request = [], output = \<lparr>buf = [], cap = 2, chan_closed = True\<rparr>,
            open = False, trace = [ConnClose]\<rparr> :: nat session) [104, 105] =
     Inr (\<lparr>Request = [], output = \<lparr>buf = [], cap = 2, chan_closed = True\<rparr>,
            open = False, trace = [ConnClose]\<rparr>, Some ErrSessionClosed) \<and>
   CloseWithMsg (\<lparr>Request = [], output = \<lparr>buf = [], cap = 2, chan_closed = True\<rparr>,
            open = False, trace = [ConnClose]\<rparr> :: nat session) [104, 105] =
     Inr (\<lparr>Request = [], output = \<lparr>buf = [], cap = 2, chan_closed = True\<rparr>,
            open = False, trace = [ConnClose]\<rparr>, Some ErrSessionAlreadyClosed)"
proof -
  have c: "closed (\<lparr>Request = [], output = \<lparr>buf = [], cap = 2, chan_closed = True\<rparr>,
            open = False, trace = [ConnClose]\<rparr> :: nat session)"
    by (simp add: closed_def)
  from closed_session_calls_fail [OF c, of "[104, 105]"] c show ?thesis
    by simp
qed

section \<open>A full mailbox\<close>

text \<open>
  C5. On an open session whose mailbox holds as many envelopes as its capacity, \<^verbatim>\<open>Write\<close>
  returns at once with \<^verbatim>\<open>ErrMessageBufferFull\<close> (and reports it to the error handler); it
  does not wait. With capacity 2, of three calls of \<^verbatim>\<open>Write\<close> on a fresh session with no
  pump event in between, the first two return success and the third returns
  \<^verbatim>\<open>ErrMessageBufferFull\<close>. The channel of an open session is not closed: only \<^verbatim>\<open>close\<close>
  closes it, together with the flag, and every run keeps the two in step (\<open>run_inv\<close>).
\<close>

theorem full_mailbox_send_fails:
  "(open s \<and> \<not> chan_closed (output s) \<and> cap (output s) \<le> length (buf (output s)) \<longrightarrow>
      Write s m = Inr (emit (ErrorHandler ErrMessageBufferFull) s, 0, Some ErrMessageBufferFull)) \<and>
   Write (newSession r 2) a =
      Inr ((newSession r 2)\<lparr>output := \<lparr>buf = [\<lparr>t = TextMessage, msg = a\<rparr>], cap = 2, chan_closed = False\<rparr>\<rparr>,
           int (length a), None) \<and>
   Write ((newSession r 2)\<lparr>output := \<lparr>buf = [\<lparr>t = TextMessage, msg = a\<rparr>], cap = 2, chan_closed = False\<rparr>\<rparr>) b =
      Inr ((newSession r 2)\<lparr>output := \<lparr>buf = [\<lparr>t = TextMessage, msg = a\<rparr>, \<lparr>t = TextMessage, msg = b\<rparr>],
                                          cap = 2, chan_closed = False\<rparr>\<rparr>,
           int (length b), None) \<and>
   Write ((newSession r 2)\<lparr>output := \<lparr>buf = [\<lparr>t = TextMessage, msg = a\<rparr>, \<lparr>t = TextMessage, msg = b\<rparr>],
                                          cap = 2, chan_closed = False\<rparr>\<rparr>) c =
      Inr ((newSession r 2)\<lparr>output := \<lparr>buf = [\<lparr>t = TextMessage, msg = a\<rparr>, \<lparr>t = TextMessage, msg = b\<rparr>],
                                          cap = 2, chan_closed = False\<rparr>,
                              trace := [ErrorHandler ErrMessageBufferFull]\<rparr>,
           0, Some ErrMessageBufferFull)"
  by (simp add: Write_def writeMessage_def closed_def chan_send_nb_def emit_def newSession_def)

theorem full_mailbox_send_fails_witness:
  "Write (\<lparr>Request = [], output = \<lparr>buf = [\<lparr>t = BinaryMessage, msg = [104]\<rparr>], cap = 1,
            chan_closed = False\<rparr>, open = True, trace = []\<rparr> :: nat session) [105] =
     Inr (\<lparr>Request = [], output = \<lparr>buf = [\<lparr>t = BinaryMessage, msg = [104]\<rparr>], cap = 1,
            chan_closed = False\<rparr>, open = True, trace = [ErrorHandler ErrMessageBufferFull]\<rparr>,
          0, Some ErrMessageBufferFull)"
proof -
  let ?s = "\<lparr>Request = [], output = \<lparr>buf = [\<lparr>t = BinaryMessage, msg = [104]\<rparr>], cap = 1,
            chan_closed = False\<rparr>, open = True, trace = []\<rparr> :: nat session"
  have h: "open ?s \<and> \<not> chan_closed (output ?s) \<and> cap (output ?s) \<le> length (buf (output ?s))"
    by simp
  have e: "emit (ErrorHandler ErrMessageBufferFull) ?s =
    \<lparr>Request = [], output = \<lparr>buf = [\<lparr>t = BinaryMessage, msg = [104]\<rparr>], cap = 1,
            chan_closed = False\<rparr>, open = True, trace = [ErrorHandler ErrMessageBufferFull]\<rparr>"
    by (simp add: emit_def)
  from full_mailbox_send_fails [of ?s "[105]" "[]" "[]" "[]" "[]", THEN conjunct1, THEN mp, OF h]
  show ?thesis unfolding e .
qed

section \<open>A successful send\<close>

text \<open>
  C6. On an open session with a free slot in the mailbox, \<^verbatim>\<open>Write\<close> appends a text
  envelope with the payload to the mailbox, changes nothing else, and returns the length
  of the payload with no error (the channel of an open session is not closed, as
  above). Whenever \<^verbatim>\<open>Write\<close> returns an error, the number of bytes it returns is zero.
\<close>

theorem send_with_free_slot:
  "(open s \<and> \<not> chan_closed (output s) \<and> length (buf (output s)) < cap (output s) \<longrightarrow>
      Write s m =
        Inr (s\<lparr>output := (output s)\<lparr>buf := buf (output s) @ [\<lparr>t = TextMessage, msg = m\<rparr>]\<rparr>\<rparr>,
             int (length m), None)) \<and>
   (\<forall>s' n e. Write s m = Inr (s', n, Some e) \<longrightarrow> n = 0)"
  by (auto simp add: Write_def writeMessage_def closed_def chan_send_nb_def emit_def
      split: if_splits sum.splits option.splits)

theorem send_with_free_slot_witness:
  "Write (newSession [] 2 :: nat session) [104, 105] =
     Inr (\<lparr>Request = [], output = \<lparr>buf = [\<lparr>t = TextMessage, msg = [104, 105]\<rparr>], cap = 2,
            chan_closed = False\<rparr>, open = True, trace = []\<rparr>, 2, None) \<and>
   Write (\<lparr>Request = [], output = \<lparr>buf = [], cap = 0, chan_closed = False\<rparr>,
           open = True, trace = []\<rparr> :: nat session) [104, 105] =
     Inr (\<lparr>Request = [], output = \<lparr>buf = [], cap = 0, chan_closed = False\<rparr>,
           open = True, trace = [ErrorHandler ErrMessageBufferFull]\<rparr>,
          0, Some ErrMessageBufferFull)"
proof -
  let ?s = "\<lparr>Request = [], output = \<lparr>buf = [], cap = 0, chan_closed = False\<rparr>,
           open = True, trace = []\<rparr> :: nat session"
  have "\<exists>s' n. Write ?s [104, 105] = Inr (s', n, Some ErrMessageBufferFull) \<and>
          s' = emit (ErrorHandler ErrMessageBufferFull) ?s"
    by (simp add: api_defs)
  then obtain s' n where w: "Write ?s [104, 105] = Inr (s', n, Some ErrMessageBufferFull)"
    and s': "s' = emit (ErrorHandler ErrMessageBufferFull) ?s"
    by blast
  from send_with_free_slot [of ?s "[104, 105]"] w have "n = 0"
    by blast
  with w s' have second: "Write ?s [104, 105] =
     Inr (\<lparr>Request = [], output = \<lparr>buf = [], cap = 0, chan_closed = False\<rparr>,
           open = True, trace = [ErrorHandler ErrMessageBufferFull]\<rparr>,
          0, Some ErrMessageBufferFull)"
    by (simp add: emit_def)
  from send_with_free_slot [of "newSession [] 2 :: nat session" "[104, 105]"]
  have "Write (newSession [] 2 :: nat session) [104, 105] =
     Inr (\<lparr>Request = [], output = \<lparr>buf = [\<lparr>t = TextMessage, msg = [104, 105]\<rparr>], cap = 2,
            chan_closed = False\<rparr>, open = True, trace = []\<rparr>, 2, None)"
    by (simp add: newSession_def)
  with second show ?thesis by simp
qed

section \<open>What Close and CloseWithMsg change\<close>

text \<open>
  C7, as amended. On an open session \<^verbatim>\<open>Close\<close> and \<^verbatim>\<open>CloseWithMsg\<close> do not close the
  connection, clear the flag or close the channel. With a free slot in the mailbox their
  only effect is to append one close envelope to it (with an empty payload for \<^verbatim>\<open>Close\<close>,
  with the caller's payload for \<^verbatim>\<open>CloseWithMsg\<close>); with a full mailbox they enqueue
  nothing, report \<^verbatim>\<open>ErrMessageBufferFull\<close> to the error handler and return it. Nothing else
  of the session changes.
\<close>

theorem close_enqueues_or_reports:
  "open s \<and> \<not> chan_closed (output s) \<longrightarrow>
     Close s =
       (if length (buf (output s)) < cap (output s)
        then Inr (s\<lparr>output := (output s)\<lparr>buf := buf (output s) @ [\<lparr>t = CloseMessage, msg = []\<rparr>]\<rparr>\<rparr>, None)
        else Inr (emit (ErrorHandler ErrMessageBufferFull) s, Some ErrMessageBufferFull)) \<and>
     CloseWithMsg s m =
       (if length (buf (output s)) < cap (output s)
        then Inr (s\<lparr>output := (output s)\<lparr>buf := buf (output s) @ [\<lparr>t = CloseMessage, msg = m\<rparr>]\<rparr>\<rparr>, None)
        else Inr (emit (ErrorHandler ErrMessageBufferFull) s, Some ErrMessageBufferFull))"
  by (simp add: api_defs)

theorem close_enqueues_or_reports_witness:
  "Close (newSession [] 2 :: nat session) =
     Inr (\<lparr>Request = [], output = \<lparr>buf = [\<lparr>t = CloseMessage, msg = []\<rparr>], cap = 2,
            chan_closed = False\<rparr>, open = True, trace = []\<rparr>, None) \<and>
   CloseWithMsg (newSession [] 2 :: nat session) [3, 232] =
     Inr (\<lparr>Request = [], output = \<lparr>buf = [\<lparr>t = CloseMessage, msg = [3, 232]\<rparr>], cap = 2,
            chan_closed = False\<rparr>, open = True, trace = []\<rparr>, None)"
  using close_enqueues_or_reports [of "newSession [] 2 :: nat session" "[3, 232]"]
  by (simp add: newSession_def)

text \<open>
  C7 as stated fails on an open session whose mailbox is full: \<^verbatim>\<open>Close\<close> enqueues no close
  envelope; the mailbox is as it was and the error handler has been invoked.
\<close>

theorem close_on_full_mailbox:
  "Close (\<lparr>Request = [], output = \<lparr>buf = [\<lparr>t = TextMessage, msg = [104]\<rparr>], cap = 1,
            chan_closed = False\<rparr>, open = True, trace = []\<rparr> :: nat session) =
     Inr (\<lparr>Request = [], output = \<lparr>buf = [\<lparr>t = TextMessage, msg = [104]\<rparr>], cap = 1,
            chan_closed = False\<rparr>, open = True, trace = [ErrorHandler ErrMessageBufferFull]\<rparr>,
          Some ErrMessageBufferFull)"
  by (simp add: api_defs)

section \<open>The write pump and the close message\<close>

lemma ends_at_close_append:
  "no_close_write a \<Longrightarrow> ends_at_close (a @ b) = ends_at_close b"
  by (induction a rule: no_close_write.induct) simp_all

lemma no_close_write_append:
  "no_close_write (a @ b) = (no_close_write a \<and> no_close_write b)"
  by (induction a rule: no_close_write.induct) simp_all

lemma no_close_write_ends: "no_close_write a \<Longrightarrow> ends_at_close a"
  by (induction a rule: no_close_write.induct) simp_all

lemma ends_at_close_split:
  "ends_at_close d \<Longrightarrow> d = pre @ WriteMessage CloseMessage m None # post \<Longrightarrow> post = []"
proof (induction pre arbitrary: d)
  case Nil
  then show ?case by simp
next
  case (Cons a pre)
  then obtain d' where d: "d = a # d'" and d': "d' = pre @ WriteMessage CloseMessage m None # post"
    by auto
  have "ends_at_close d'"
  proof (cases a)
    case (WriteMessage k x wr)
    with Cons.prems(1) d d' show ?thesis
      by (cases wr) (auto split: if_splits)
  qed (use Cons.prems(1) d in auto)
  with Cons.IH d' show ?case by blast
qed

lemma no_close_write_split:
  "no_close_write d \<Longrightarrow> d \<noteq> pre @ WriteMessage CloseMessage m None # post"
proof (induction pre arbitrary: d)
  case Nil
  then show ?case by (cases d) auto
next
  case (Cons a pre)
  show ?case
  proof
    assume eq: "d = (a # pre) @ WriteMessage CloseMessage m None # post"
    then obtain d' where d: "d = a # d'" and d': "d' = pre @ WriteMessage CloseMessage m None # post"
      by auto
    have "no_close_write d'"
    proof (cases a)
      case (WriteMessage k x wr)
      with Cons.prems d show ?thesis by (cases wr) auto
    qed (use Cons.prems d in auto)
    with Cons.IH d' show False by blast
  qed
qed

lemma iter_trace:
  assumes "writePump_iter s ev = (go, s')"
  shows "\<exists>d. trace s' = trace s @ d \<and>
           sent_calls d = concat (map sent_for (conn_writes d)) \<and>
           ends_at_close d \<and> (go \<longrightarrow> no_close_write d)"
proof (cases ev)
  case (Pair sel wr)
  show ?thesis
  proof (cases sel)
    case TickerC
    with Pair assms show ?thesis
      by (cases wr)
        (auto simp add: writePump_iter_def ping_def writeRaw_def emit_def sent_for_def message_types)
  next
    case RecvOutput
    show ?thesis
    proof (cases "buf (output s)")
      case Nil
      with Pair RecvOutput assms show ?thesis
        by (auto simp add: writePump_iter_def chan_recv_def split: if_splits)
    next
      case (Cons m ms)
      with Pair RecvOutput assms show ?thesis
        by (cases wr)
          (auto simp add: writePump_iter_def chan_recv_def writeRaw_def emit_def sent_for_def
            closed_def message_types Let_def split: if_splits)
    qed
  qed
qed

lemma writePump_trace:
  "\<exists>d. trace (snd (writePump evs s)) = trace s @ d \<and>
       sent_calls d = concat (map sent_for (conn_writes d)) \<and>
       ends_at_close d \<and> (fst (writePump evs s) = Running \<longrightarrow> no_close_write d)"
proof (induction evs arbitrary: s)
  case Nil
  show ?case by simp
next
  case (Cons ev evs)
  obtain go s1 where it: "writePump_iter s ev = (go, s1)"
    by (cases "writePump_iter s ev")
  from iter_trace [OF it] obtain d1 where d1: "trace s1 = trace s @ d1"
    "sent_calls d1 = concat (map sent_for (conn_writes d1))" "ends_at_close d1"
    "go \<longrightarrow> no_close_write d1"
    by blast
  show ?case
  proof (cases go)
    case False
    with it d1 show ?thesis by auto
  next
    case True
    from Cons.IH [of s1] obtain d2 where d2: "trace (snd (writePump evs s1)) = trace s1 @ d2"
      "sent_calls d2 = concat (map sent_for (conn_writes d2))" "ends_at_close d2"
      "fst (writePump evs s1) = Running \<longrightarrow> no_close_write d2"
      by blast
    have nc: "no_close_write d1" using True d1 by simp
    have "trace (snd (writePump (ev # evs) s)) = trace s @ (d1 @ d2)"
      using it True d1 d2 by simp
    moreover have "sent_calls (d1 @ d2) = concat (map sent_for (conn_writes (d1 @ d2)))"
      using d1 d2 by (simp add: sent_calls_append conn_writes_append)
    moreover have "ends_at_close (d1 @ d2)"
      using nc d2 by (simp add: ends_at_close_append)
    moreover have "fst (writePump (ev # evs) s) = Running \<longrightarrow> no_close_write (d1 @ d2)"
      using it True nc d2 by (simp add: no_close_write_append)
    ultimately show ?thesis by blast
  qed
qed

lemma writePump_stopped_append:
  "fst (writePump evs s) = Stopped \<Longrightarrow> writePump (evs @ rest) s = writePump evs s"
  by (induction evs arbitrary: s) (auto split: prod.splits bool.splits)

text \<open>
  C8. Take any run of the write pump, from any session, and the part of the trace it
  adds. The invocations of the two message-sent handlers in it are exactly those called
  for by the envelopes written without error, in order: the plain handler for each text
  message, the binary one for each binary message, none for a close message or a ping.
  And wherever that part of the trace has a successful write of a close message, nothing
  follows it: no write, no handler invocation. The loop has ended there, and further
  events do not change its result.
\<close>

theorem writePump_close_and_sent:
  "\<exists>d. trace (snd (writePump evs s)) = trace s @ d \<and>
       sent_calls d = concat (map sent_for (conn_writes d)) \<and>
       (\<forall>pre m post. d = pre @ WriteMessage CloseMessage m None # post \<longrightarrow>
          post = [] \<and> fst (writePump evs s) = Stopped \<and>
          writePump (evs @ rest) s = writePump evs s)"
proof -
  from writePump_trace [of evs s] obtain d where d: "trace (snd (writePump evs s)) = trace s @ d"
    "sent_calls d = concat (map sent_for (conn_writes d))" "ends_at_close d"
    "fst (writePump evs s) = Running \<longrightarrow> no_close_write d"
    by blast
  have "post = [] \<and> fst (writePump evs s) = Stopped \<and> writePump (evs @ rest) s = writePump evs s"
    if eq: "d = pre @ WriteMessage CloseMessage m None # post" for pre m post
  proof -
    have p: "post = []" using ends_at_close_split [OF d(3) eq] .
    have "\<not> no_close_write d" using no_close_write_split [of d pre m post] eq by blast
    with d(4) have st: "fst (writePump evs s) = Stopped"
      by (cases "fst (writePump evs s)") auto
    from p st writePump_stopped_append [OF st] show ?thesis by simp
  qed
  with d(1,2) show ?thesis by blast
qed

theorem writePump_close_and_sent_witness:
  "fst (writePump [(TickerC, None), (RecvOutput, None), (RecvOutput, None), (RecvOutput, None)]
     (\<lparr>Request = [],
       output = \<lparr>buf = [\<lparr>t = TextMessage, msg = [104]\<rparr>, \<lparr>t = CloseMessage, msg = []\<rparr>,
                        \<lparr>t = TextMessage, msg = [105]\<rparr>], cap = 3, chan_closed = False\<rparr>,
       open = True, trace = []\<rparr> :: nat session)) = Stopped \<and>
   trace (snd (writePump [(TickerC, None), (RecvOutput, None), (RecvOutput, None), (RecvOutput, None)]
     (\<lparr>Request = [],
       output = \<lparr>buf = [\<lparr>t = TextMessage, msg = [104]\<rparr>, \<lparr>t = CloseMessage, msg = []\<rparr>,
                        \<lparr>t = TextMessage, msg = [105]\<rparr>], cap = 3, chan_closed = False\<rparr>,
       open = True, trace = []\<rparr> :: nat session))) =
     [SetWriteDeadline, WriteMessage PingMessage [] None,
      SetWriteDeadline, WriteMessage TextMessage [104] None, MessageSentHandler [104],
      SetWriteDeadline, WriteMessage CloseMessage [] None]"
proof -
  let ?s = "\<lparr>Request = [],
       output = \<lparr>buf = [\<lparr>t = TextMessage, msg = [104]\<rparr>, \<lparr>t = CloseMessage, msg = []\<rparr>,
                        \<lparr>t = TextMessage, msg = [105]\<rparr>], cap = 3, chan_closed = False\<rparr>,
       open = True, trace = []\<rparr> :: nat session"
  let ?evs = "[(TickerC, None), (RecvOutput, None), (RecvOutput, None), (RecvOutput, None)]"
  have tr: "trace (snd (writePump ?evs ?s)) =
     [SetWriteDeadline, WriteMessage PingMessage [] None,
      SetWriteDeadline, WriteMessage TextMessage [104] None, MessageSentHandler [104],
      SetWriteDeadline, WriteMessage CloseMessage [] None]"
    by (simp add: eval_defs)
  from writePump_close_and_sent [of ?evs ?s "[]"] obtain d
    where d: "trace (snd (writePump ?evs ?s)) = trace ?s @ d"
      and cl: "\<forall>pre m post. d = pre @ WriteMessage CloseMessage m None # post \<longrightarrow>
          post = [] \<and> fst (writePump ?evs ?s) = Stopped \<and>
          writePump (?evs @ []) ?s = writePump ?evs ?s"
    by blast
  from d tr have "d = [SetWriteDeadline, WriteMessage PingMessage [] None,
      SetWriteDeadline, WriteMessage TextMessage [104] None, MessageSentHandler [104],
      SetWriteDeadline] @ WriteMessage CloseMessage [] None # []"
    by simp
  with cl have "fst (writePump ?evs ?s) = Stopped"
    by blast
  with tr show ?thesis by blast
qed

section \<open>Writes on a closed session\<close>

text \<open>
  C9, as amended. On a closed session \<^verbatim>\<open>writeMessage\<close> reports \<^verbatim>\<open>ErrWriteToClosedSession\<close> to
  the error handler and returns it. \<^verbatim>\<open>writeRaw\<close> returns \<^verbatim>\<open>ErrWriteToClosedSession\<close> to its
  caller without touching the connection or the error handler. Of its two callers, the
  write pump, having taken an envelope from the mailbox, reports the error to the error
  handler and ends its loop; \<^verbatim>\<open>ping\<close> drops the error: a ping on a closed session changes
  nothing and reports nothing.
\<close>

theorem closed_write_attempts:
  "closed s \<longrightarrow>
     writeMessage s e =
       Inr (emit (ErrorHandler ErrWriteToClosedSession) s, Some ErrWriteToClosedSession) \<and>
     writeRaw s e wr = (s, Some ErrWriteToClosedSession) \<and>
     writePump_iter (s\<lparr>output := (output s)\<lparr>buf := e # es\<rparr>\<rparr>) (RecvOutput, wr) =
       (False, emit (ErrorHandler ErrWriteToClosedSession) (s\<lparr>output := (output s)\<lparr>buf := es\<rparr>\<rparr>)) \<and>
     ping s wr = s"
  by (simp add: writeMessage_def writeRaw_def ping_def writePump_iter_def chan_recv_def closed_def emit_def)

theorem closed_write_attempts_witness:
  "writeMessage (\<lparr>Request = [], output = \<lparr>buf = [], cap = 2, chan_closed = True\<rparr>,
            open = False, trace = [ConnClose]\<rparr> :: nat session) \<lparr>t = TextMessage, msg = [104]\<rparr> =
     Inr (\<lparr>Request = [], output = \<lparr>buf = [], cap = 2, chan_closed = True\<rparr>,
            open = False, trace = [ConnClose, ErrorHandler ErrWriteToClosedSession]\<rparr>,
          Some ErrWriteToClosedSession) \<and>
   writePump_iter (\<lparr>Request = [], output = \<lparr>buf = [\<lparr>t = TextMessage, msg = [104]\<rparr>], cap = 2,
            chan_closed = True\<rparr>, open = False, trace = [ConnClose]\<rparr> :: nat session)
       (RecvOutput, None) =
     (False, \<lparr>Request = [], output = \<lparr>buf = [], cap = 2, chan_closed = True\<rparr>,
            open = False, trace = [ConnClose, ErrorHandler ErrWriteToClosedSession]\<rparr>)"
proof -
  let ?s = "\<lparr>Request = [], output = \<lparr>buf = [], cap = 2, chan_closed = True\<rparr>,
            open = False, trace = [ConnClose]\<rparr> :: nat session"
  have c: "closed ?s" by (simp add: closed_def)
  from closed_write_attempts [of ?s "\<lparr>t = TextMessage, msg = [104]\<rparr>" None "[]"] c
  show ?thesis by (simp add: emit_def)
qed

text \<open>
  C9 as stated fails for the heartbeat: a ping on the session that \<^verbatim>\<open>close\<close> leaves behind
  returns the session as it was; the trace is still the single \<^verbatim>\<open>conn.Close\<close> and holds no
  report to the error handler.
\<close>

theorem ping_on_closed_session_silent:
  "ping (\<lparr>Request = [], output = \<lparr>buf = [], cap = 2, chan_closed = True\<rparr>,
          open = False, trace = [ConnClose]\<rparr> :: nat session) None =
     \<lparr>Request = [], output = \<lparr>buf = [], cap = 2, chan_closed = True\<rparr>,
      open = False, trace = [ConnClose]\<rparr> \<and>
   error_reports [ConnClose] = []"
  by (simp add: ping_def writeRaw_def closed_def)

section \<open>Values of a session\<close>

text \<open>
  C10. \<^verbatim>\<open>Get\<close> returns the value the request's context has for the key, and reports it as
  existing exactly when that value is not \<^verbatim>\<open>nil\<close>, that is, when the newest entry for the
  key holds a value other than \<^verbatim>\<open>nil\<close>. After \<^verbatim>\<open>Set\<close> with \<^verbatim>\<open>nil\<close>, \<^verbatim>\<open>Get\<close> reports the key as
  absent and \<^verbatim>\<open>MustGet\<close> panics; after \<^verbatim>\<open>Set\<close> with another value both return it. \<^verbatim>\<open>Set\<close> leaves
  the other keys, those inherited from the request included, as they were.
\<close>

theorem Get_non_nil:
  "fst (Get s key) = ctx_Value (Request s) key \<and>
   snd (Get s key) = (\<exists>v. map_of (Request s) key = Some (Some v)) \<and>
   Get (Set s key None) key = (None, False) \<and>
   MustGet (Set s key None) key =
     Inl (PanicMsg (''Key '' @ [CHR 0x22] @ key @ [CHR 0x22] @ '' does not exist'')) \<and>
   Get (Set s key (Some v)) key = (Some v, True) \<and>
   MustGet (Set s key (Some v)) key = Inr (Some v) \<and>
   (key' \<noteq> key \<longrightarrow> Get (Set s key val) key' = Get s key')"
  by (auto simp add: Get_def Set_def MustGet_def ctx_Value_def newRequestWithContextKey_def Let_def
      split: option.splits)

theorem Get_non_nil_witness:
  "Get (Set (newSession [(''user'', Some 7)] 2 :: nat session) ''room'' None) ''user'' =
     (Some 7, True) \<and>
   Get (Set (newSession [(''user'', Some 7)] 2 :: nat session) ''user'' None) ''user'' =
     (None, False)"
proof -
  have ne: "''user'' \<noteq> ''room''" by simp
  from Get_non_nil [of "newSession [(''user'', Some 7)] 2 :: nat session" "''room''" 3
      "''user''" None]
    ne
  have "Get (Set (newSession [(''user'', Some 7)] 2 :: nat session) ''room'' None) ''user'' =
        Get (newSession [(''user'', Some 7)] 2 :: nat session) ''user''"
    by blast
  moreover
  from Get_non_nil [of "newSession [(''user'', Some 7)] 2 :: nat session" "''user''" 3
      "''user''" None]
  have "Get (Set (newSession [(''user'', Some 7)] 2 :: nat session) ''user'' None) ''user'' =
        (None, False)"
    by blast
  ultimately show ?thesis
    by (simp add: Get_def ctx_Value_def newSession_def)
qed

end
